theory Spec2Isabelle
  imports Main "HOL-Library.Sublist" "HOL-Library.Word"
begin

section \<open>JavaScript strings and the string operations used by \<open>src/app/page.tsx\<close>\<close>

text \<open>
  A JavaScript string is a finite sequence of UTF-16 code units. The string literals of
  the source are ASCII, so they are written as HOL string literals and converted code
  unit by code unit.
\<close>

type_synonym jsstring = "16 word list"

definition utf16 :: "string \<Rightarrow> jsstring" where
  "utf16 s = map of_char s"

text \<open>
  \<open>String.prototype.trim\<close> removes WhiteSpace and LineTerminator code points from both
  ends (ECMAScript, TrimString): TAB, LF, VT, FF, CR, SP, NBSP, U+1680, U+2000..U+200A,
  U+2028, U+2029, U+202F, U+205F, U+3000 and U+FEFF. All of them are single code units.
\<close>

definition isWhiteSpace :: "16 word \<Rightarrow> bool" where
  "isWhiteSpace c \<longleftrightarrow>
     c = 0x0009 \<or> c = 0x000A \<or> c = 0x000B \<or> c = 0x000C \<or> c = 0x000D \<or> c = 0x0020 \<or>
     c = 0x00A0 \<or> c = 0x1680 \<or> (0x2000 \<le> c \<and> c \<le> 0x200A) \<or> c = 0x2028 \<or>
     c = 0x2029 \<or> c = 0x202F \<or> c = 0x205F \<or> c = 0x3000 \<or> c = 0xFEFF"

definition trim :: "jsstring \<Rightarrow> jsstring" where
  "trim s = rev (dropWhile isWhiteSpace (rev (dropWhile isWhiteSpace s)))"

text \<open>
  \<open>s.indexOf(pat)\<close>: the smallest position at which \<open>pat\<close> occurs in \<open>s\<close>, if any
  (ECMAScript StringIndexOf from position 0). \<open>s.includes(pat)\<close> is true exactly when
  there is one.
\<close>

fun indexOf :: "'a list \<Rightarrow> 'a list \<Rightarrow> nat option" where
  "indexOf pat [] = (if pat = [] then Some 0 else None)"
| "indexOf pat (x # xs) =
     (if prefix pat (x # xs) then Some 0 else map_option Suc (indexOf pat xs))"

definition includes_str :: "'a list \<Rightarrow> 'a list \<Rightarrow> bool" where
  "includes_str s pat \<longleftrightarrow> indexOf pat s \<noteq> None"

text \<open>
  \<open>s.replace(pat, repl)\<close> with a string pattern replaces the first occurrence only, and
  returns \<open>s\<close> when there is none. The replacement strings of the source contain no
  \<open>$\<close>, so they are inserted as they are.
\<close>

definition replace :: "'a list \<Rightarrow> 'a list \<Rightarrow> 'a list \<Rightarrow> 'a list" where
  "replace s pat repl =
     (case indexOf pat s of
        None \<Rightarrow> s
      | Some j \<Rightarrow> take j s @ repl @ drop (j + length pat) s)"

text \<open>
  \<open>s.split(sep)\<close> with a string separator and no limit (ECMAScript
  String.prototype.split): with the empty separator the result is the list of the code
  units, empty for the empty string; otherwise the pieces between successive
  non-overlapping occurrences of the separator, searched from the left, the last piece
  being the rest of the string.
\<close>

function split :: "'a list \<Rightarrow> 'a list \<Rightarrow> 'a list list" where
  "split s sep =
     (if sep = [] then map (\<lambda>c. [c]) s
      else case indexOf sep s of
             None \<Rightarrow> [s]
           | Some j \<Rightarrow> take j s # split (drop (j + length sep) s) sep)"
  by pat_completeness auto
termination
proof (relation "measure (\<lambda>(s, sep). length s)")
  show "wf (measure (\<lambda>(s, sep). length s))" by simp
next
  fix s sep :: "'a list" and j
  assume sep: "sep \<noteq> []" and j: "indexOf sep s = Some j"
  have "indexOf sep t = Some k \<Longrightarrow> k + length sep \<le> length t" for t k
  proof (induction t arbitrary: k)
    case Nil
    then show ?case by (simp split: if_splits)
  next
    case (Cons x xs)
    show ?case
    proof (cases "prefix sep (x # xs)")
      case True
      then have "length sep \<le> length (x # xs)" by (rule prefix_length_le)
      with True Cons.prems show ?thesis by simp
    next
      case False
      with Cons.prems obtain m where "indexOf sep xs = Some m" "k = Suc m" by auto
      with Cons.IH show ?thesis by simp
    qed
  qed
  from this [OF j] sep have "length s - (j + length sep) < length s"
    by (cases sep) simp_all
  then show "((drop (j + length sep) s, sep), (s, sep)) \<in> measure (\<lambda>(s, sep). length s)"
    by simp
qed

text \<open>\<open>pieces.join(sep)\<close> on an array of strings.\<close>

fun join :: "'a list list \<Rightarrow> 'a list \<Rightarrow> 'a list" where
  "join [] sep = []"
| "join [p] sep = p"
| "join (p # q # ps) sep = p @ sep @ join (q # ps) sep"

section \<open>The content segmenter: \<open>parseMessageContent\<close>\<close>

record segmented =
  thinking :: jsstring
  finalResponse :: jsstring
  isComplete :: bool

definition THINK_OPEN :: jsstring where
  "THINK_OPEN = utf16 ''<think>''"

definition THINK_CLOSE :: jsstring where
  "THINK_CLOSE = utf16 ''</think>''"

text \<open>
  The destructuring \<open>const [thinking, ...rest] = content.split('</think>')\<close> binds
  \<open>thinking\<close> to the first piece (\<open>undefined\<close> for an empty array, on which
  \<open>.replace\<close> throws a TypeError) and \<open>rest\<close> to the remaining pieces.
\<close>

definition parseMessageContent :: "jsstring \<Rightarrow> segmented option" where
  "parseMessageContent content =
     (if includes_str content THINK_CLOSE then
        (case split content THINK_CLOSE of
           [] \<Rightarrow> None
         | thinking' # rest \<Rightarrow>
             Some \<lparr>thinking = trim (replace thinking' THINK_OPEN []),
                   finalResponse = trim (join rest THINK_CLOSE),
                   isComplete = True\<rparr>)
      else if includes_str content THINK_OPEN then
        Some \<lparr>thinking = trim (replace content THINK_OPEN []),
              finalResponse = [],
              isComplete = False\<rparr>
      else
        Some \<lparr>thinking = [], finalResponse = content, isComplete = True\<rparr>)"


section \<open>The query history: \<open>previousQueries\<close>\<close>

text \<open>
  \<open>xs.slice(start)\<close> (Array.prototype.slice with the end omitted): a negative start
  counts from the end and is clamped at 0, a start beyond the length gives the empty
  array.
\<close>

definition slice_list :: "'a list \<Rightarrow> int \<Rightarrow> 'a list" where
  "slice_list xs start =
     (let len = int (length xs);
          k = (if start < 0 then max (len + start) 0 else min start len)
      in drop (nat k) xs)"

text \<open>The updater \<open>prev => [...prev, input].slice(-3)\<close> passed to \<open>setPreviousQueries\<close>.\<close>

definition appendQuery :: "jsstring list \<Rightarrow> jsstring \<Rightarrow> jsstring list" where
  "appendQuery prev q = slice_list (prev @ [q]) (- 3)"

section \<open>The search context formatter\<close>

record search_result =
  title :: jsstring
  url :: jsstring
  text_str :: jsstring
  author :: "jsstring option"
  publishedDate :: "jsstring option"

text \<open>
  A template literal converts the number \<open>i + 1\<close> with Number::toString, which for a
  non-negative integer below \<open>10^21\<close> is its decimal numeral.
\<close>

fun toDecimal :: "nat \<Rightarrow> jsstring" where
  "toDecimal n =
     (if n < 10 then [of_nat (48 + n)]
      else toDecimal (n div 10) @ [of_nat (48 + n mod 10)])"

text \<open>
  An optional string field in a condition: \<open>undefined\<close> and the empty string are falsy,
  every other string is truthy.
\<close>

definition truthy :: "jsstring option \<Rightarrow> bool" where
  "truthy v = (case v of None \<Rightarrow> False | Some a \<Rightarrow> a \<noteq> [])"

text \<open>The arrow function \<open>(r, i) => `Source [${i + 1}]: ...`\<close> given to \<open>results.map\<close>.\<close>

definition formatSource :: "search_result \<Rightarrow> nat \<Rightarrow> jsstring" where
  "formatSource r i =
     utf16 ''Source ['' @ toDecimal (i + 1) @ utf16 '']:\<newline>Title: '' @ title r @
     utf16 ''\<newline>URL: '' @ url r @ utf16 ''\<newline>'' @
     (if truthy (author r) then utf16 ''Author: '' @ the (author r) @ utf16 ''\<newline>'' else []) @
     (if truthy (publishedDate r)
      then utf16 ''Date: '' @ the (publishedDate r) @ utf16 ''\<newline>'' else []) @
     utf16 ''Content: '' @ text_str r @ utf16 ''\<newline>---''"

text \<open>\<open>xs.map((x, i) => f(x, i))\<close>: the callback gets each element with its index.\<close>

fun mapIndexed :: "('a \<Rightarrow> nat \<Rightarrow> 'b) \<Rightarrow> nat \<Rightarrow> 'a list \<Rightarrow> 'b list" where
  "mapIndexed f i [] = []"
| "mapIndexed f i (x # xs) = f x i # mapIndexed f (Suc i) xs"

definition CONTEXT_HEADER :: jsstring where
  "CONTEXT_HEADER = utf16 ''Web Search Results:\<newline>\<newline>''"

definition CONTEXT_INSTRUCTIONS :: jsstring where
  "CONTEXT_INSTRUCTIONS =
     utf16 (''\<newline>\<newline>Instructions: Based on the above search results, please provide an '' @
            ''answer to the user's query. When referencing information, cite the source '' @
            ''number in brackets like [1], [2], etc. Use simple english. Use simple words.'')"

definition searchContext :: "search_result list \<Rightarrow> jsstring" where
  "searchContext results =
     (if length results > 0
      then CONTEXT_HEADER @
           join (mapIndexed formatSource 0 results) (utf16 ''\<newline>\<newline>'') @
           CONTEXT_INSTRUCTIONS
      else [])"

section \<open>The orchestrator: \<open>handleSubmit\<close>\<close>

datatype role = User | Assistant | System

record message =
  id_str :: jsstring
  role :: role
  content :: jsstring

text \<open>
  The state of the page component: its four \<open>useState\<close> cells, and the \<open>messages\<close>
  and \<open>input\<close> cells owned by \<open>useChat\<close>. \<open>searchError\<close> is \<open>None\<close> for \<open>null\<close>.
\<close>

record page_state =
  isSearching :: bool
  searchResults :: "search_result list"
  searchError :: "jsstring option"
  previousQueries :: "jsstring list"
  messages :: "message list"
  input :: jsstring

text \<open>
  What the handler does to the outside, in order: \<open>e.preventDefault()\<close>, the POST to
  \<open>/api/exawebsearch\<close> with its \<open>query\<close> and \<open>previousQueries\<close> body fields, the model
  request started by \<open>handleChatSubmit(e)\<close>, and \<open>console.error\<close>.
\<close>

datatype effect =
  PreventDefault
| Fetch jsstring "jsstring list"
| HandleChatSubmit
| ConsoleError

text \<open>
  A value caught by \<open>catch (err)\<close>: an \<open>Error\<close> instance with its message, or anything
  else. The outcome of the search request is an input from the environment: \<open>fetch\<close>
  rejects (transport error), or resolves to a response with its \<open>ok\<close> flag and what
  \<open>json()\<close> gives: a rejection, or a body whose \<open>results\<close> field is an array of
  \<open>SearchResult\<close>.
\<close>

datatype thrown = Error jsstring | NonError

datatype search_response =
  Rejected thrown
| Responded bool "thrown + search_result list"

text \<open>
  The body of the \<open>try\<close> block after the request was sent. State written before a throw
  stays written. \<open>s\<close> is the state the handler closed over (its \<open>messages\<close> and \<open>input\<close>
  are read from it), \<open>s1\<close> the state after the resets; \<open>now\<close> is \<open>Date.now()\<close>.
\<close>

definition tryBlock ::
  "nat \<Rightarrow> search_response \<Rightarrow> page_state \<Rightarrow> page_state \<Rightarrow>
   thrown \<times> page_state + page_state \<times> effect list" where
  "tryBlock now resp s s1 =
     (case resp of
        Rejected e \<Rightarrow> Inl (e, s1)
      | Responded ok body \<Rightarrow>
          if \<not> ok then Inl (Error (utf16 ''Search failed''), s1)
          else (case body of
                  Inl e \<Rightarrow> Inl (e, s1)
                | Inr results \<Rightarrow>
                    let s2 = s1\<lparr>searchResults := results\<rparr>;
                        ctx = searchContext results;
                        s3 = (if ctx \<noteq> []
                              then s2\<lparr>messages := messages s @
                                     [\<lparr>id_str = toDecimal now, role = System, content = ctx\<rparr>]\<rparr>
                              else s2)
                    in Inr (s3\<lparr>previousQueries := appendQuery (previousQueries s3) (input s)\<rparr>,
                            [HandleChatSubmit])))"

definition handleSubmit ::
  "nat \<Rightarrow> search_response \<Rightarrow> page_state \<Rightarrow> page_state \<times> effect list" where
  "handleSubmit now resp s =
     (if trim (input s) = [] then (s, [PreventDefault])
      else
        let s1 = s\<lparr>isSearching := True, searchResults := [], searchError := None\<rparr>;
            sent = [PreventDefault, Fetch (input s) (slice_list (previousQueries s) (- 3))]
        in case tryBlock now resp s s1 of
             Inr (s2, fx) \<Rightarrow> (s2\<lparr>isSearching := False\<rparr>, sent @ fx)
           | Inl (err, s2) \<Rightarrow>
               (s2\<lparr>searchError :=
                      Some (case err of Error m \<Rightarrow> m | NonError \<Rightarrow> utf16 ''Search failed''),
                    isSearching := False\<rparr>,
                sent @ [ConsoleError]))"

text \<open>
  The states the page can be in: it starts with the initial values of its cells;
  \<open>useChat\<close> changes \<open>messages\<close> and \<open>input\<close> (typing, the user message that
  \<open>handleChatSubmit\<close> appends, the input it clears, streamed tokens); and a submit runs
  the handler, taken as one step. The only writer of \<open>previousQueries\<close> is the handler.
\<close>

definition initial :: page_state where
  "initial = \<lparr>isSearching = False, searchResults = [], searchError = None,
              previousQueries = [], messages = [], input = []\<rparr>"

inductive reachable :: "page_state \<Rightarrow> bool" where
  start: "reachable initial"
| chat: "reachable s \<Longrightarrow> reachable (s\<lparr>messages := ms, input := i\<rparr>)"
| submit: "reachable s \<Longrightarrow> reachable (fst (handleSubmit now resp s))"

section \<open>Facts about the string operations\<close>

declare split.simps [simp del]

lemma indexOf_SomeD:
  "indexOf pat s = Some j \<Longrightarrow> prefix pat (drop j s) \<and> j \<le> length s \<and> (\<forall>i<j. \<not> prefix pat (drop i s))"
proof (induction s arbitrary: j)
  case Nil
  then show ?case by (simp split: if_splits)
next
  case (Cons x xs)
  show ?case
  proof (cases "prefix pat (x # xs)")
    case True
    with Cons.prems show ?thesis by simp
  next
    case False
    with Cons.prems obtain k where k: "indexOf pat xs = Some k" "j = Suc k" by auto
    from Cons.IH [OF k(1)] False k(2) show ?thesis
      by (auto simp: less_Suc_eq_0_disj)
  qed
qed

lemma indexOf_SomeI:
  "prefix pat (drop j s) \<Longrightarrow> j \<le> length s \<Longrightarrow> \<forall>i<j. \<not> prefix pat (drop i s) \<Longrightarrow> indexOf pat s = Some j"
proof (induction s arbitrary: j)
  case Nil
  then show ?case by simp
next
  case (Cons x xs)
  show ?case
  proof (cases j)
    case 0
    with Cons.prems show ?thesis by simp
  next
    case (Suc k)
    with Cons.prems have "\<not> prefix pat (x # xs)" by force
    moreover have "indexOf pat xs = Some k"
      using Cons.prems Suc by (intro Cons.IH) (auto dest: spec [of _ "Suc _"])
    ultimately show ?thesis using Suc by simp
  qed
qed

lemma all_le_Suc_shift: "(\<forall>i\<le>Suc n. Q i) \<longleftrightarrow> Q 0 \<and> (\<forall>i\<le>n. Q (Suc i))"
proof
  assume "\<forall>i\<le>Suc n. Q i"
  then show "Q 0 \<and> (\<forall>i\<le>n. Q (Suc i))" by simp
next
  assume h: "Q 0 \<and> (\<forall>i\<le>n. Q (Suc i))"
  show "\<forall>i\<le>Suc n. Q i"
  proof (intro allI impI)
    fix i assume "i \<le> Suc n"
    with h show "Q i" by (cases i) simp_all
  qed
qed

lemma indexOf_None_iff: "indexOf pat s = None \<longleftrightarrow> (\<forall>i\<le>length s. \<not> prefix pat (drop i s))"
proof (induction s)
  case Nil
  then show ?case by simp
next
  case (Cons x xs)
  show ?case
  proof (cases "prefix pat (x # xs)")
    case True
    then show ?thesis by auto
  next
    case False
    with Cons.IH show ?thesis by (simp add: all_le_Suc_shift)
  qed
qed

lemma includes_str_iff: "includes_str s pat \<longleftrightarrow> (\<exists>a b. s = a @ pat @ b)"
proof
  assume "includes_str s pat"
  then obtain j where j: "indexOf pat s = Some j" by (auto simp: includes_str_def)
  from indexOf_SomeD [OF j] obtain b where "drop j s = pat @ b" by (auto simp: prefix_def)
  then have "s = take j s @ pat @ b" by (metis append_take_drop_id)
  then show "\<exists>a b. s = a @ pat @ b" by blast
next
  assume "\<exists>a b. s = a @ pat @ b"
  then obtain a b where s: "s = a @ pat @ b" by blast
  have "prefix pat (drop (length a) s)" "length a \<le> length s" by (simp_all add: s)
  then show "includes_str s pat"
    unfolding includes_str_def indexOf_None_iff by blast
qed

lemma includes_str_append: "includes_str s pat \<Longrightarrow> includes_str (s @ t) pat"
  unfolding includes_str_iff by (metis append.assoc)

lemma indexOf_decomp:
  assumes "indexOf pat s = Some j"
  shows "s = take j s @ pat @ drop (j + length pat) s"
proof -
  from indexOf_SomeD [OF assms] obtain b where b: "drop j s = pat @ b" by (auto simp: prefix_def)
  have "drop (j + length pat) s = drop (length pat) (drop j s)" by (simp add: add.commute)
  also have "\<dots> = b" by (simp add: b)
  finally show ?thesis using b by (metis append_take_drop_id)
qed

lemma indexOf_first:
  assumes "s = a @ pat @ b" and "\<forall>i<length a. \<not> prefix pat (drop i s)"
  shows "indexOf pat s = Some (length a)"
  using assms by (intro indexOf_SomeI) simp_all

lemma split_nonempty: "sep \<noteq> [] \<Longrightarrow> split s sep \<noteq> []"
  by (subst split.simps) (auto split: option.splits)

lemma split_Some:
  "sep \<noteq> [] \<Longrightarrow> indexOf sep s = Some j \<Longrightarrow>
   split s sep = take j s # split (drop (j + length sep) s) sep"
  by (subst split.simps) simp

lemma join_Cons: "ps \<noteq> [] \<Longrightarrow> join (p # ps) sep = p @ sep @ join ps sep"
  by (cases ps) simp_all

lemma join_split: "sep \<noteq> [] \<Longrightarrow> join (split s sep) sep = s"
proof (induction s sep rule: split.induct)
  case (1 s sep)
  show ?case
  proof (cases "indexOf sep s")
    case None
    with "1.prems" show ?thesis by (subst split.simps) simp
  next
    case (Some j)
    from "1.IH" [OF "1.prems" Some] "1.prems"
    have "join (split (drop (j + length sep) s) sep) sep = drop (j + length sep) s" by simp
    then have "join (split s sep) sep = take j s @ sep @ drop (j + length sep) s"
      using "1.prems" Some by (simp add: split_Some join_Cons split_nonempty)
    then show ?thesis using indexOf_decomp [OF Some] by simp
  qed
qed


lemma first_decomp:
  assumes "includes_str s pat"
  shows "\<exists>a b. s = a @ pat @ b \<and> (\<forall>i<length a. \<not> prefix pat (drop i s))"
proof -
  from assms obtain j where j: "indexOf pat s = Some j" by (auto simp: includes_str_def)
  from indexOf_SomeD [OF j] have "length (take j s) = j" and "\<forall>i<j. \<not> prefix pat (drop i s)"
    by simp_all
  with indexOf_decomp [OF j] show ?thesis by metis
qed

lemma replace_absent: "\<not> includes_str s pat \<Longrightarrow> replace s pat r = s"
  by (simp add: replace_def includes_str_def)

lemma replace_first:
  assumes "s = a @ pat @ b" and "\<forall>i<length a. \<not> prefix pat (drop i s)"
  shows "replace s pat r = a @ r @ b"
proof -
  have "indexOf pat s = Some (length a)" using assms by (rule indexOf_first)
  then show ?thesis by (simp add: replace_def assms(1))
qed

lemma includes_str_rev: "includes_str (rev s) (rev pat) \<longleftrightarrow> includes_str s pat"
proof -
  have "(\<exists>a b. rev s = a @ rev pat @ b) \<longleftrightarrow> (\<exists>a b. s = a @ pat @ b)"
  proof
    assume "\<exists>a b. rev s = a @ rev pat @ b"
    then obtain a b where "rev s = a @ rev pat @ b" by blast
    then have "rev (rev s) = rev (a @ rev pat @ b)" by simp
    then have "s = rev b @ pat @ rev a" by simp
    then show "\<exists>a b. s = a @ pat @ b" by blast
  next
    assume "\<exists>a b. s = a @ pat @ b"
    then obtain a b where "s = a @ pat @ b" by blast
    then have "rev s = rev b @ rev pat @ rev a" by simp
    then show "\<exists>a b. rev s = a @ rev pat @ b" by blast
  qed
  then show ?thesis by (simp add: includes_str_iff)
qed

lemma dropWhile_keeps_occurrence:
  assumes "pat \<noteq> []" and "\<not> P (hd pat)" and "includes_str s pat"
  shows "includes_str (dropWhile P s) pat"
proof -
  from assms(3) obtain a b where s: "s = a @ pat @ b" by (auto simp: includes_str_iff)
  have "\<exists>a'. dropWhile P (a @ pat @ b) = a' @ pat @ b"
  proof (induction a)
    case Nil
    from assms(1,2) have "dropWhile P (pat @ b) = pat @ b" by (cases pat) simp_all
    then show ?case by (metis append_Nil)
  next
    case (Cons x a)
    show ?case
    proof (cases "P x")
      case True
      with Cons.IH show ?thesis by simp
    next
      case False
      then have "dropWhile P ((x # a) @ pat @ b) = (x # a) @ pat @ b" by simp
      then show ?thesis by blast
    qed
  qed
  then show ?thesis unfolding s includes_str_iff by blast
qed

lemma trim_keeps_occurrence:
  assumes "pat \<noteq> []" and "\<not> isWhiteSpace (hd pat)" and "\<not> isWhiteSpace (last pat)"
    and "includes_str s pat"
  shows "includes_str (trim s) pat"
proof -
  have "includes_str (dropWhile isWhiteSpace s) pat"
    using assms(1,2,4) by (rule dropWhile_keeps_occurrence)
  then have "includes_str (rev (dropWhile isWhiteSpace s)) (rev pat)"
    by (simp add: includes_str_rev)
  moreover have "rev pat \<noteq> []" "\<not> isWhiteSpace (hd (rev pat))"
    using assms(1,3) by (simp_all add: hd_rev)
  ultimately have "includes_str (dropWhile isWhiteSpace (rev (dropWhile isWhiteSpace s))) (rev pat)"
    by (metis dropWhile_keeps_occurrence)
  then have "includes_str (rev (rev (dropWhile isWhiteSpace (rev (dropWhile isWhiteSpace s))))) (rev pat)"
    by simp
  then show ?thesis unfolding trim_def by (simp only: includes_str_rev)
qed

lemma THINK_CLOSE_code_units: "THINK_CLOSE = [0x3C, 0x2F, 0x74, 0x68, 0x69, 0x6E, 0x6B, 0x3E]"
  by (simp add: THINK_CLOSE_def utf16_def)

lemma THINK_OPEN_code_units: "THINK_OPEN = [0x3C, 0x74, 0x68, 0x69, 0x6E, 0x6B, 0x3E]"
  by (simp add: THINK_OPEN_def utf16_def)

lemma THINK_CLOSE_nonempty: "THINK_CLOSE \<noteq> []"
  by (simp add: THINK_CLOSE_code_units)

lemma THINK_CLOSE_ends: "\<not> isWhiteSpace (hd THINK_CLOSE)" "\<not> isWhiteSpace (last THINK_CLOSE)"
  by (simp_all add: THINK_CLOSE_code_units isWhiteSpace_def)

lemma THINK_OPEN_nonempty: "THINK_OPEN \<noteq> []"
  by (simp add: THINK_OPEN_code_units)

lemma THINK_OPEN_ends: "\<not> isWhiteSpace (hd THINK_OPEN)" "\<not> isWhiteSpace (last THINK_OPEN)"
  by (simp_all add: THINK_OPEN_code_units isWhiteSpace_def)

lemma parse_at_first_close:
  assumes "buffer = before @ THINK_CLOSE @ after"
    and "\<forall>i<length before. \<not> prefix THINK_CLOSE (drop i buffer)"
  shows "parseMessageContent buffer =
           Some \<lparr>thinking = trim (replace before THINK_OPEN []),
                 finalResponse = trim after, isComplete = True\<rparr>"
proof -
  have j: "indexOf THINK_CLOSE buffer = Some (length before)"
    using assms by (rule indexOf_first)
  then have inc: "includes_str buffer THINK_CLOSE" by (simp add: includes_str_def)
  have "split buffer THINK_CLOSE = before # split after THINK_CLOSE"
    using split_Some [OF THINK_CLOSE_nonempty j] by (simp add: assms(1))
  moreover have "join (split after THINK_CLOSE) THINK_CLOSE = after"
    using THINK_CLOSE_nonempty by (rule join_split)
  ultimately show ?thesis using inc by (simp add: parseMessageContent_def)
qed


section \<open>The segmenter on a buffer\<close>

text \<open>
  Claim C1. When the end marker occurs in the buffer, \<open>parseMessageContent\<close> returns
  \<open>isComplete = true\<close>; \<open>thinking\<close> is what precedes the first occurrence of the end
  marker, without the first occurrence of the start marker if there is one, trimmed;
  \<open>finalResponse\<close> is everything after that first end marker, trimmed, so that a later
  occurrence of the end marker is still there.
\<close>
theorem segment_end_marker:
  assumes "includes_str buffer THINK_CLOSE"
  shows "\<exists>before after stripped.
           buffer = before @ THINK_CLOSE @ after \<and>
           (\<forall>i<length before. \<not> prefix THINK_CLOSE (drop i buffer)) \<and>
           ((\<not> includes_str before THINK_OPEN \<and> stripped = before) \<or>
            (\<exists>a b. before = a @ THINK_OPEN @ b \<and>
                   (\<forall>i<length a. \<not> prefix THINK_OPEN (drop i before)) \<and>
                   stripped = a @ b)) \<and>
           parseMessageContent buffer =
             Some \<lparr>thinking = trim stripped, finalResponse = trim after, isComplete = True\<rparr> \<and>
           (includes_str after THINK_CLOSE \<longrightarrow> includes_str (trim after) THINK_CLOSE)"
proof -
  from first_decomp [OF assms] obtain before after where
    c: "buffer = before @ THINK_CLOSE @ after" and
    m: "\<forall>i<length before. \<not> prefix THINK_CLOSE (drop i buffer)" by blast
  define stripped where "stripped = replace before THINK_OPEN []"
  have p: "parseMessageContent buffer =
             Some \<lparr>thinking = trim stripped, finalResponse = trim after, isComplete = True\<rparr>"
    unfolding stripped_def using c m by (rule parse_at_first_close)
  have s: "(\<not> includes_str before THINK_OPEN \<and> stripped = before) \<or>
           (\<exists>a b. before = a @ THINK_OPEN @ b \<and>
                  (\<forall>i<length a. \<not> prefix THINK_OPEN (drop i before)) \<and> stripped = a @ b)"
  proof (cases "includes_str before THINK_OPEN")
    case False
    then show ?thesis by (simp add: stripped_def replace_absent)
  next
    case True
    from first_decomp [OF True] obtain a b where
      ab: "before = a @ THINK_OPEN @ b" "\<forall>i<length a. \<not> prefix THINK_OPEN (drop i before)"
      by blast
    have "replace before THINK_OPEN [] = a @ [] @ b" using ab by (rule replace_first)
    then have "stripped = a @ b" by (simp add: stripped_def)
    with ab show ?thesis by blast
  qed
  have k: "includes_str after THINK_CLOSE \<longrightarrow> includes_str (trim after) THINK_CLOSE"
    using trim_keeps_occurrence [OF THINK_CLOSE_nonempty THINK_CLOSE_ends] by blast
  from c m s p k show ?thesis by blast
qed

theorem segment_end_marker_witness:
  "includes_str (utf16 ''<think> a </think> b </think> c '') THINK_CLOSE \<and>
   (\<exists>before after stripped.
      utf16 ''<think> a </think> b </think> c '' = before @ THINK_CLOSE @ after \<and>
      (\<forall>i<length before.
          \<not> prefix THINK_CLOSE (drop i (utf16 ''<think> a </think> b </think> c ''))) \<and>
      ((\<not> includes_str before THINK_OPEN \<and> stripped = before) \<or>
       (\<exists>a b. before = a @ THINK_OPEN @ b \<and>
              (\<forall>i<length a. \<not> prefix THINK_OPEN (drop i before)) \<and>
              stripped = a @ b)) \<and>
      parseMessageContent (utf16 ''<think> a </think> b </think> c '') =
        Some \<lparr>thinking = trim stripped, finalResponse = trim after, isComplete = True\<rparr> \<and>
      (includes_str after THINK_CLOSE \<longrightarrow> includes_str (trim after) THINK_CLOSE))"
proof -
  have h: "includes_str (utf16 ''<think> a </think> b </think> c '') THINK_CLOSE"
    by code_simp
  from h segment_end_marker [OF h] show ?thesis by (rule conjI)
qed

text \<open>
  Claim C3. A buffer with neither marker is returned as \<open>finalResponse\<close> exactly as it
  is, with empty \<open>thinking\<close> and \<open>isComplete = true\<close>; so is the empty buffer.
\<close>
theorem segment_no_markers:
  "(\<not> includes_str buffer THINK_OPEN \<and> \<not> includes_str buffer THINK_CLOSE \<longrightarrow>
      parseMessageContent buffer =
        Some \<lparr>thinking = [], finalResponse = buffer, isComplete = True\<rparr>) \<and>
   parseMessageContent [] = Some \<lparr>thinking = [], finalResponse = [], isComplete = True\<rparr>"
proof -
  have "\<not> includes_str [] THINK_OPEN" "\<not> includes_str [] THINK_CLOSE"
    by (simp_all add: includes_str_def THINK_OPEN_nonempty THINK_CLOSE_nonempty)
  then show ?thesis by (simp add: parseMessageContent_def)
qed

theorem segment_no_markers_witness:
  "\<not> includes_str (utf16 '' 4 < 5 '') THINK_OPEN \<and>
   \<not> includes_str (utf16 '' 4 < 5 '') THINK_CLOSE \<and>
   parseMessageContent (utf16 '' 4 < 5 '') =
     Some \<lparr>thinking = [], finalResponse = utf16 '' 4 < 5 '', isComplete = True\<rparr>"
proof -
  have h: "\<not> includes_str (utf16 '' 4 < 5 '') THINK_OPEN \<and>
           \<not> includes_str (utf16 '' 4 < 5 '') THINK_CLOSE"
    by code_simp
  with segment_no_markers [of "utf16 '' 4 < 5 ''"] show ?thesis by blast
qed

text \<open>
  Claim C4. A buffer with the start marker and no end marker gives \<open>isComplete = false\<close>,
  an empty \<open>finalResponse\<close>, and as \<open>thinking\<close> the buffer without the first occurrence
  of the start marker, trimmed.
\<close>
theorem segment_start_marker_only:
  assumes "includes_str buffer THINK_OPEN" and "\<not> includes_str buffer THINK_CLOSE"
  shows "\<exists>a b. buffer = a @ THINK_OPEN @ b \<and>
               (\<forall>i<length a. \<not> prefix THINK_OPEN (drop i buffer)) \<and>
               parseMessageContent buffer =
                 Some \<lparr>thinking = trim (a @ b), finalResponse = [], isComplete = False\<rparr>"
proof -
  from first_decomp [OF assms(1)] obtain a b where
    ab: "buffer = a @ THINK_OPEN @ b" "\<forall>i<length a. \<not> prefix THINK_OPEN (drop i buffer)"
    by blast
  have "replace buffer THINK_OPEN [] = a @ [] @ b" using ab by (rule replace_first)
  then have "parseMessageContent buffer =
               Some \<lparr>thinking = trim (a @ b), finalResponse = [], isComplete = False\<rparr>"
    using assms by (simp add: parseMessageContent_def)
  with ab show ?thesis by blast
qed

theorem segment_start_marker_only_witness:
  "includes_str (utf16 ''<think>Let me check'') THINK_OPEN \<and>
   \<not> includes_str (utf16 ''<think>Let me check'') THINK_CLOSE \<and>
   (\<exists>a b. utf16 ''<think>Let me check'' = a @ THINK_OPEN @ b \<and>
          (\<forall>i<length a. \<not> prefix THINK_OPEN (drop i (utf16 ''<think>Let me check''))) \<and>
          parseMessageContent (utf16 ''<think>Let me check'') =
            Some \<lparr>thinking = trim (a @ b), finalResponse = [], isComplete = False\<rparr>)"
proof -
  have h1: "includes_str (utf16 ''<think>Let me check'') THINK_OPEN" by code_simp
  have h2: "\<not> includes_str (utf16 ''<think>Let me check'') THINK_CLOSE" by code_simp
  from h1 h2 segment_start_marker_only [OF h1 h2] show ?thesis by blast
qed

text \<open>
  Claim C5. Completeness is monotone under growth of the buffer: if \<open>s\<close> contains the end
  marker then both \<open>s\<close> and every extension \<open>s @ t\<close> are segmented with
  \<open>isComplete = true\<close>.
\<close>
theorem segment_complete_monotone:
  assumes "includes_str s THINK_CLOSE"
  shows "\<exists>r r'. parseMessageContent s = Some r \<and> isComplete r \<and>
                parseMessageContent (s @ t) = Some r' \<and> isComplete r'"
proof -
  have "includes_str u THINK_CLOSE \<Longrightarrow> \<exists>r. parseMessageContent u = Some r \<and> isComplete r" for u
    using split_nonempty [OF THINK_CLOSE_nonempty, of u]
    by (cases "split u THINK_CLOSE") (simp_all add: parseMessageContent_def)
  from this [OF assms] this [OF includes_str_append [OF assms]] show ?thesis by blast
qed

theorem segment_complete_monotone_witness:
  "includes_str (utf16 ''<think>x</think>'') THINK_CLOSE \<and>
   (\<exists>r r'. parseMessageContent (utf16 ''<think>x</think>'') = Some r \<and> isComplete r \<and>
           parseMessageContent (utf16 ''<think>x</think>'' @ utf16 ''<think>'') = Some r' \<and>
           isComplete r')"
proof -
  have h: "includes_str (utf16 ''<think>x</think>'') THINK_CLOSE" by code_simp
  from h segment_complete_monotone [OF h] show ?thesis by (rule conjI)
qed

text \<open>
  Claim C10. When the end marker occurs and no start marker occurs in the buffer, or none
  before the first end marker, the same branch is taken: \<open>isComplete = true\<close>,
  \<open>thinking\<close> is the text before the first end marker, trimmed, and \<open>finalResponse\<close> the
  text after it, trimmed; a start marker after the end marker stays in \<open>finalResponse\<close>.
\<close>
theorem segment_end_marker_without_start:
  assumes "buffer = before @ THINK_CLOSE @ after"
    and "\<forall>i<length before. \<not> prefix THINK_CLOSE (drop i buffer)"
    and "\<not> includes_str buffer THINK_OPEN \<or> \<not> includes_str before THINK_OPEN"
  shows "parseMessageContent buffer =
           Some \<lparr>thinking = trim before, finalResponse = trim after, isComplete = True\<rparr> \<and>
         (includes_str after THINK_OPEN \<longrightarrow> includes_str (trim after) THINK_OPEN)"
proof -
  have "includes_str before THINK_OPEN \<Longrightarrow> includes_str buffer THINK_OPEN"
    unfolding assms(1) by (rule includes_str_append)
  with assms(3) have "\<not> includes_str before THINK_OPEN" by blast
  then have "replace before THINK_OPEN [] = before" by (rule replace_absent)
  with parse_at_first_close [OF assms(1,2)]
  have "parseMessageContent buffer =
          Some \<lparr>thinking = trim before, finalResponse = trim after, isComplete = True\<rparr>"
    by simp
  moreover have "includes_str after THINK_OPEN \<longrightarrow> includes_str (trim after) THINK_OPEN"
    using trim_keeps_occurrence [OF THINK_OPEN_nonempty THINK_OPEN_ends] by blast
  ultimately show ?thesis by blast
qed


theorem segment_end_marker_without_start_witness:
  "utf16 '' a </think> b <think> c '' = utf16 '' a '' @ THINK_CLOSE @ utf16 '' b <think> c '' \<and>
   indexOf THINK_CLOSE (utf16 '' a </think> b <think> c '') = Some (length (utf16 '' a '')) \<and>
   \<not> includes_str (utf16 '' a '') THINK_OPEN \<and>
   includes_str (utf16 '' b <think> c '') THINK_OPEN \<and>
   parseMessageContent (utf16 '' a </think> b <think> c '') =
     Some \<lparr>thinking = utf16 ''a'', finalResponse = utf16 ''b <think> c'',
           isComplete = True\<rparr> \<and>
   includes_str (utf16 ''b <think> c'') THINK_OPEN"
proof -
  have h1: "utf16 '' a </think> b <think> c '' =
            utf16 '' a '' @ THINK_CLOSE @ utf16 '' b <think> c ''"
    by (simp add: utf16_def THINK_CLOSE_def)
  have h2: "\<forall>i<length (utf16 '' a '').
              \<not> prefix THINK_CLOSE (drop i (utf16 '' a </think> b <think> c ''))"
    by (simp add: utf16_def THINK_CLOSE_def less_Suc_eq)
  have h3: "\<not> includes_str (utf16 '' a '') THINK_OPEN" by code_simp
  have h4: "includes_str (utf16 '' b <think> c '') THINK_OPEN" by code_simp
  have i: "indexOf THINK_CLOSE (utf16 '' a </think> b <think> c '') =
           Some (length (utf16 '' a ''))"
    using h1 h2 by (rule indexOf_first)
  have t1: "trim (utf16 '' a '') = utf16 ''a''" by code_simp
  have t2: "trim (utf16 '' b <think> c '') = utf16 ''b <think> c''" by code_simp
  from segment_end_marker_without_start [OF h1 h2 disjI2 [OF h3]] h4
  have "parseMessageContent (utf16 '' a </think> b <think> c '') =
          Some \<lparr>thinking = utf16 ''a'', finalResponse = utf16 ''b <think> c'',
                isComplete = True\<rparr>"
    and "includes_str (utf16 ''b <think> c'') THINK_OPEN"
    unfolding t1 t2 by blast+
  with h1 i h3 h4 show ?thesis by blast
qed

section \<open>The query history window\<close>

lemma slice_list_neg3: "slice_list xs (- 3) = drop (length xs - 3) xs"
proof -
  have "nat (max (int (length xs) + - 3) 0) = length xs - 3" by simp
  then show ?thesis by (simp add: slice_list_def Let_def)
qed

lemma length_appendQuery: "length (appendQuery h q) \<le> 3"
  by (simp add: appendQuery_def slice_list_neg3)

lemma trim_blank_iff: "trim s = [] \<longleftrightarrow> (\<forall>c\<in>set s. isWhiteSpace c)"
proof -
  have "(\<forall>x\<in>set (dropWhile isWhiteSpace s). isWhiteSpace x) \<longleftrightarrow> dropWhile isWhiteSpace s = []"
    by (metis empty_iff hd_dropWhile list.set(1) list.set_sel(1))
  then show ?thesis by (simp add: trim_def dropWhile_eq_Nil_conv)
qed

lemma handleSubmit_history:
  "previousQueries (fst (handleSubmit now resp s)) = previousQueries s \<or>
   previousQueries (fst (handleSubmit now resp s)) = appendQuery (previousQueries s) (input s)"
  by (simp add: handleSubmit_def tryBlock_def Let_def split: search_response.splits sum.splits)

lemma reachable_history: "reachable s \<Longrightarrow> length (previousQueries s) \<le> 3"
proof (induction rule: reachable.induct)
  case start
  then show ?case by (simp add: initial_def)
next
  case (chat s ms i)
  then show ?case by simp
next
  case (submit s now resp)
  with handleSubmit_history [of now resp s] length_appendQuery show ?case by metis
qed

lemma handleSubmit_success_history:
  "trim (input s) \<noteq> [] \<Longrightarrow>
   previousQueries (fst (handleSubmit now (Responded True (Inr results)) s)) =
     appendQuery (previousQueries s) (input s)"
  by (simp add: handleSubmit_def tryBlock_def Let_def)

lemma reachable_after_turn:
  assumes "reachable s" and "trim q \<noteq> []"
  shows "reachable
           ((fst (handleSubmit now (Responded True (Inr [])) (s\<lparr>messages := ms, input := q\<rparr>)))
              \<lparr>messages := ms', input := i'\<rparr>)"
  by (intro reachable.chat reachable.submit assms(1))

text \<open>
  Claim C8. The query history never holds more than 3 entries: an append yields at most
  3, appending to a history of 3 drops the oldest entry and puts the new one last, four
  appends to the empty history leave the last three, and every state the page can reach
  has at most 3 entries. The handler is what keeps the history: a submit whose search
  succeeds replaces it by the append of the submitted input, any other submit leaves it
  as it was, and nothing but these two happens to it. The one search request of a
  submit carries the last 3 entries of the history as it was before the submit (all of
  them when there are fewer), so never the query being submitted.
\<close>
theorem history_window_bounded:
  "length (appendQuery h q) \<le> 3 \<and>
   (length h = 3 \<longrightarrow> appendQuery h q = tl h @ [q]) \<and>
   appendQuery (appendQuery (appendQuery (appendQuery [] a) b) c) d = [b, c, d] \<and>
   (reachable s \<longrightarrow> length (previousQueries s) \<le> 3) \<and>
   (trim (input s) \<noteq> [] \<longrightarrow>
      previousQueries (fst (handleSubmit now (Responded True (Inr results)) s)) =
        appendQuery (previousQueries s) (input s)) \<and>
   (trim (input s) \<noteq> [] \<and> length (previousQueries s) = 3 \<longrightarrow>
      previousQueries (fst (handleSubmit now (Responded True (Inr results)) s)) =
        tl (previousQueries s) @ [input s]) \<and>
   (previousQueries (fst (handleSubmit now resp s)) = previousQueries s \<or>
    previousQueries (fst (handleSubmit now resp s)) =
      appendQuery (previousQueries s) (input s)) \<and>
   (trim (input s) \<noteq> [] \<longrightarrow>
      (\<exists>w. Fetch (input s) w \<in> set (snd (handleSubmit now resp s)) \<and>
           (\<forall>q' w'. Fetch q' w' \<in> set (snd (handleSubmit now resp s)) \<longrightarrow> w' = w) \<and>
           w = drop (length (previousQueries s) - 3) (previousQueries s) \<and>
           length w \<le> 3))"
proof -
  have evict: "appendQuery h q = tl h @ [q]" if "length h = 3" for h :: "jsstring list" and q
  proof -
    from that obtain x y z where "h = [x, y, z]"
      by (auto simp: numeral_3_eq_3 length_Suc_conv)
    then show ?thesis by (simp add: appendQuery_def slice_list_neg3)
  qed
  have four: "appendQuery (appendQuery (appendQuery (appendQuery [] a) b) c) d = [b, c, d]"
    by (simp add: appendQuery_def slice_list_neg3)
  have writes: "previousQueries (fst (handleSubmit now (Responded True (Inr results)) s)) =
                  appendQuery (previousQueries s) (input s)" if "trim (input s) \<noteq> []"
    using that by (rule handleSubmit_success_history)
  have writes3: "previousQueries (fst (handleSubmit now (Responded True (Inr results)) s)) =
                   tl (previousQueries s) @ [input s]"
    if "trim (input s) \<noteq> [] \<and> length (previousQueries s) = 3"
    using that writes evict [of "previousQueries s" "input s"] by simp
  have win: "\<exists>w. Fetch (input s) w \<in> set (snd (handleSubmit now resp s)) \<and>
           (\<forall>q' w'. Fetch q' w' \<in> set (snd (handleSubmit now resp s)) \<longrightarrow> w' = w) \<and>
           w = drop (length (previousQueries s) - 3) (previousQueries s) \<and>
           length w \<le> 3" if "trim (input s) \<noteq> []"
    using that
    by (auto simp: handleSubmit_def tryBlock_def Let_def slice_list_neg3
             split: search_response.splits sum.splits)
  show ?thesis
    using length_appendQuery [of h q] evict [of h q] four reachable_history [of s]
      writes writes3 handleSubmit_history [of now resp s] win
    by blast
qed

text \<open>
  The fourth turn of a conversation: after the queries \<open>a\<close>, \<open>b\<close>, \<open>c\<close> were answered
  the history is full; submitting \<open>d\<close> sends \<open>a\<close>, \<open>b\<close>, \<open>c\<close> with the search request
  and leaves \<open>b\<close>, \<open>c\<close>, \<open>d\<close>.
\<close>

theorem history_window_bounded_witness:
  "reachable
     \<lparr>isSearching = False, searchResults = [], searchError = None,
      previousQueries = [utf16 ''a'', utf16 ''b'', utf16 ''c''], messages = [],
      input = utf16 ''d''\<rparr> \<and>
   trim (utf16 ''d'') \<noteq> [] \<and>
   previousQueries
     (fst (handleSubmit 0 (Responded True (Inr []))
        \<lparr>isSearching = False, searchResults = [], searchError = None,
         previousQueries = [utf16 ''a'', utf16 ''b'', utf16 ''c''], messages = [],
         input = utf16 ''d''\<rparr>)) = [utf16 ''b'', utf16 ''c'', utf16 ''d''] \<and>
   Fetch (utf16 ''d'') [utf16 ''a'', utf16 ''b'', utf16 ''c''] \<in>
     set (snd (handleSubmit 0 (Responded True (Inr []))
        \<lparr>isSearching = False, searchResults = [], searchError = None,
         previousQueries = [utf16 ''a'', utf16 ''b'', utf16 ''c''], messages = [],
         input = utf16 ''d''\<rparr>))"
proof -
  define st where "st h i =
     \<lparr>isSearching = False, searchResults = [], searchError = None,
      previousQueries = h, messages = [], input = i\<rparr>" for h i
  have nb: "trim (utf16 ''a'') \<noteq> []" "trim (utf16 ''b'') \<noteq> []" "trim (utf16 ''c'') \<noteq> []"
    "trim (utf16 ''d'') \<noteq> []"
    by (simp_all add: trim_def utf16_def isWhiteSpace_def)
  have turn: "reachable (st (appendQuery h q) i)" if "reachable (st h j)" and "trim q \<noteq> []"
    for h q i j
  proof -
    have "(fst (handleSubmit 0 (Responded True (Inr [])) ((st h j)\<lparr>messages := [], input := q\<rparr>)))
            \<lparr>messages := [], input := i\<rparr> = st (appendQuery h q) i"
      using that(2)
      by (simp add: st_def handleSubmit_def tryBlock_def Let_def searchContext_def)
    with reachable_after_turn [OF that, where now = 0 and ms = "[]" and ms' = "[]" and i' = i] show ?thesis by simp
  qed
  have "reachable (st [] [])" using reachable.start by (simp add: st_def initial_def)
  from turn [OF this nb(1)] have "reachable (st [utf16 ''a''] [])"
    by (simp add: appendQuery_def slice_list_neg3)
  from turn [OF this nb(2)] have "reachable (st [utf16 ''a'', utf16 ''b''] [])"
    by (simp add: appendQuery_def slice_list_neg3)
  from turn [OF this nb(3)]
  have h1: "reachable (st [utf16 ''a'', utf16 ''b'', utf16 ''c''] (utf16 ''d''))"
    by (simp add: appendQuery_def slice_list_neg3)
  have h2: "trim (input (st [utf16 ''a'', utf16 ''b'', utf16 ''c''] (utf16 ''d''))) \<noteq> []"
    using nb(4) by (simp add: st_def)
  have h3: "length (previousQueries (st [utf16 ''a'', utf16 ''b'', utf16 ''c''] (utf16 ''d''))) = 3"
    by (simp add: st_def)
  note t = history_window_bounded
         [of "[utf16 ''a'', utf16 ''b'', utf16 ''c'']" "utf16 ''d''" "utf16 ''a''" "utf16 ''b''"
             "utf16 ''c''" "utf16 ''d''"
             "st [utf16 ''a'', utf16 ''b'', utf16 ''c''] (utf16 ''d'')"
             0 "[]" "Responded True (Inr [])"]
  from t h2 h3
  have "previousQueries
          (fst (handleSubmit 0 (Responded True (Inr []))
                  (st [utf16 ''a'', utf16 ''b'', utf16 ''c''] (utf16 ''d'')))) =
        tl (previousQueries (st [utf16 ''a'', utf16 ''b'', utf16 ''c''] (utf16 ''d''))) @
        [input (st [utf16 ''a'', utf16 ''b'', utf16 ''c''] (utf16 ''d''))]"
    by blast
  then have c1: "previousQueries
          (fst (handleSubmit 0 (Responded True (Inr []))
                  (st [utf16 ''a'', utf16 ''b'', utf16 ''c''] (utf16 ''d'')))) =
        [utf16 ''b'', utf16 ''c'', utf16 ''d'']"
    by (simp add: st_def)
  from t h2 obtain w where
    "Fetch (input (st [utf16 ''a'', utf16 ''b'', utf16 ''c''] (utf16 ''d''))) w \<in>
       set (snd (handleSubmit 0 (Responded True (Inr []))
                   (st [utf16 ''a'', utf16 ''b'', utf16 ''c''] (utf16 ''d''))))"
    and "w = drop (length (previousQueries (st [utf16 ''a'', utf16 ''b'', utf16 ''c''] (utf16 ''d''))) - 3)
                  (previousQueries (st [utf16 ''a'', utf16 ''b'', utf16 ''c''] (utf16 ''d'')))"
    by blast
  then have c2: "Fetch (utf16 ''d'') [utf16 ''a'', utf16 ''b'', utf16 ''c''] \<in>
       set (snd (handleSubmit 0 (Responded True (Inr []))
                   (st [utf16 ''a'', utf16 ''b'', utf16 ''c''] (utf16 ''d''))))"
    by (simp add: st_def)
  from h1 nb(4) c1 c2 show ?thesis unfolding st_def by blast
qed

section \<open>The orchestrator on a turn\<close>

text \<open>
  Claim C9. When the input is empty or all whitespace, a submit changes nothing in the
  state (search results, error, loading flag, history, messages) and does nothing but
  \<open>preventDefault\<close>: no search request, no model request.
\<close>
theorem submit_blank_input_noop:
  assumes "\<forall>c\<in>set (input s). isWhiteSpace c"
  shows "fst (handleSubmit now resp s) = s \<and>
         snd (handleSubmit now resp s) = [PreventDefault] \<and>
         (\<forall>q w. Fetch q w \<notin> set (snd (handleSubmit now resp s))) \<and>
         HandleChatSubmit \<notin> set (snd (handleSubmit now resp s))"
proof -
  from assms have "trim (input s) = []" by (simp add: trim_blank_iff)
  then show ?thesis by (simp add: handleSubmit_def)
qed

theorem submit_blank_input_noop_witness:
  "list_all isWhiteSpace (input (initial\<lparr>input := utf16 ''  ''\<rparr>)) \<and>
   fst (handleSubmit 0 (Responded True (Inr [])) (initial\<lparr>input := utf16 ''  ''\<rparr>)) =
     initial\<lparr>input := utf16 ''  ''\<rparr> \<and>
   snd (handleSubmit 0 (Responded True (Inr [])) (initial\<lparr>input := utf16 ''  ''\<rparr>)) =
     [PreventDefault]"
proof -
  have h: "\<forall>c\<in>set (input (initial\<lparr>input := utf16 ''  ''\<rparr>)). isWhiteSpace c"
    by (simp add: utf16_def isWhiteSpace_def)
  then have "list_all isWhiteSpace (input (initial\<lparr>input := utf16 ''  ''\<rparr>))"
    by (simp only: list_all_iff)
  with submit_blank_input_noop [OF h, of 0 "Responded True (Inr [])"]
  show ?thesis by blast
qed

text \<open>
  Claim C2. When the search request fails, by a transport error or a response that is not
  ok, a submit records an error message (\<open>Search failed\<close> for a response that is not
  ok), issues no model request, leaves the messages and the query history as they were
  and clears the loading flag.
\<close>
theorem submit_search_failed:
  assumes "trim (input s) \<noteq> []"
    and "resp = Rejected e \<or> resp = Responded False body"
  shows "(\<exists>m. searchError (fst (handleSubmit now resp s)) = Some m) \<and>
         (resp = Responded False body \<longrightarrow>
            searchError (fst (handleSubmit now resp s)) = Some (utf16 ''Search failed'')) \<and>
         HandleChatSubmit \<notin> set (snd (handleSubmit now resp s)) \<and>
         messages (fst (handleSubmit now resp s)) = messages s \<and>
         previousQueries (fst (handleSubmit now resp s)) = previousQueries s \<and>
         \<not> isSearching (fst (handleSubmit now resp s))"
  using assms by (auto simp: handleSubmit_def tryBlock_def Let_def)

theorem submit_search_failed_witness:
  "trim (input (initial\<lparr>input := utf16 ''hi''\<rparr>)) \<noteq> [] \<and>
   searchError (fst (handleSubmit 0 (Responded False (Inr [])) (initial\<lparr>input := utf16 ''hi''\<rparr>)))
     = Some (utf16 ''Search failed'') \<and>
   HandleChatSubmit \<notin>
     set (snd (handleSubmit 0 (Responded False (Inr [])) (initial\<lparr>input := utf16 ''hi''\<rparr>))) \<and>
   messages (fst (handleSubmit 0 (Responded False (Inr [])) (initial\<lparr>input := utf16 ''hi''\<rparr>)))
     = messages (initial\<lparr>input := utf16 ''hi''\<rparr>) \<and>
   previousQueries
     (fst (handleSubmit 0 (Responded False (Inr [])) (initial\<lparr>input := utf16 ''hi''\<rparr>)))
     = previousQueries (initial\<lparr>input := utf16 ''hi''\<rparr>)"
proof -
  have h: "trim (input (initial\<lparr>input := utf16 ''hi''\<rparr>)) \<noteq> []"
    by (simp add: trim_def utf16_def isWhiteSpace_def)
  have r: "Responded False (Inr []) = Rejected NonError \<or>
           Responded False (Inr []) = Responded False (Inr [])" by simp
  from submit_search_failed [OF h r, of 0] h show ?thesis by blast
qed

text \<open>
  Claim C6. The formatter gives the empty text for an empty result list, and a submit
  whose search succeeds with an empty result list issues the model request after the
  search request without adding any message to the conversation.
\<close>
theorem submit_empty_results:
  assumes "trim (input s) \<noteq> []"
  shows "searchContext [] = [] \<and>
         snd (handleSubmit now (Responded True (Inr [])) s) =
           [PreventDefault,
            Fetch (input s) (drop (length (previousQueries s) - 3) (previousQueries s)),
            HandleChatSubmit] \<and>
         messages (fst (handleSubmit now (Responded True (Inr [])) s)) = messages s \<and>
         searchResults (fst (handleSubmit now (Responded True (Inr [])) s)) = [] \<and>
         searchError (fst (handleSubmit now (Responded True (Inr [])) s)) = None"
  using assms by (simp add: handleSubmit_def tryBlock_def Let_def searchContext_def slice_list_neg3)

theorem submit_empty_results_witness:
  "trim (input (initial\<lparr>input := utf16 ''hi''\<rparr>)) \<noteq> [] \<and>
   snd (handleSubmit 0 (Responded True (Inr [])) (initial\<lparr>input := utf16 ''hi''\<rparr>)) =
     [PreventDefault, Fetch (utf16 ''hi'') [], HandleChatSubmit] \<and>
   messages (fst (handleSubmit 0 (Responded True (Inr [])) (initial\<lparr>input := utf16 ''hi''\<rparr>)))
     = []"
proof -
  have h: "trim (input (initial\<lparr>input := utf16 ''hi''\<rparr>)) \<noteq> []"
    by (simp add: trim_def utf16_def isWhiteSpace_def)
  from submit_empty_results [OF h, of 0] h show ?thesis by (simp add: initial_def)
qed


section \<open>The formatted search context\<close>

lemma length_mapIndexed: "length (mapIndexed f k xs) = length xs"
  by (induction xs arbitrary: k) simp_all

lemma nth_mapIndexed: "i < length xs \<Longrightarrow> mapIndexed f k xs ! i = f (xs ! i) (k + i)"
proof (induction xs arbitrary: k i)
  case Nil
  then show ?case by simp
next
  case (Cons x xs)
  show ?case
  proof (cases i)
    case 0
    then show ?thesis by simp
  next
    case (Suc j)
    with Cons.prems have "j < length xs" by simp
    from Cons.IH [OF this, of "Suc k"] Suc show ?thesis by simp
  qed
qed

text \<open>
  Claim C7. For a non-empty result list the context is the header, one block per result
  joined by blank lines, and the instructions. The block at position \<open>i\<close> (from 1) is
  labelled \<open>Source [i]\<close> and is built from \<open>results[i-1]\<close>, whatever optional fields
  are present; its author line is there exactly when \<open>author\<close> is a non-empty string
  and its date line exactly when \<open>publishedDate\<close> is a non-empty string.
\<close>
theorem format_citation_index:
  assumes "results \<noteq> []"
  shows "\<exists>blocks.
           searchContext results =
             CONTEXT_HEADER @ join blocks (utf16 ''\<newline>\<newline>'') @ CONTEXT_INSTRUCTIONS \<and>
           length blocks = length results \<and>
           (\<forall>i. 1 \<le> i \<and> i \<le> length results \<longrightarrow>
              blocks ! (i - 1) =
                utf16 ''Source ['' @ toDecimal i @ utf16 '']:\<newline>Title: '' @
                title (results ! (i - 1)) @
                utf16 ''\<newline>URL: '' @ url (results ! (i - 1)) @ utf16 ''\<newline>'' @
                (case author (results ! (i - 1)) of
                   None \<Rightarrow> []
                 | Some a \<Rightarrow> if a = [] then [] else utf16 ''Author: '' @ a @ utf16 ''\<newline>'') @
                (case publishedDate (results ! (i - 1)) of
                   None \<Rightarrow> []
                 | Some d \<Rightarrow> if d = [] then [] else utf16 ''Date: '' @ d @ utf16 ''\<newline>'') @
                utf16 ''Content: '' @ text_str (results ! (i - 1)) @ utf16 ''\<newline>---'')"
proof (intro exI conjI allI impI)
  show "searchContext results =
          CONTEXT_HEADER @ join (mapIndexed formatSource 0 results) (utf16 ''\<newline>\<newline>'') @
          CONTEXT_INSTRUCTIONS"
    using assms by (simp add: searchContext_def)
  show "length (mapIndexed formatSource 0 results) = length results"
    by (rule length_mapIndexed)
next
  fix i
  assume i: "1 \<le> i \<and> i \<le> length results"
  then have lt: "i - 1 < length results" and suc: "i - 1 + 1 = i" by arith+
  have "mapIndexed formatSource 0 results ! (i - 1) = formatSource (results ! (i - 1)) (i - 1)"
    using nth_mapIndexed [OF lt, of formatSource 0] by simp
  also have "\<dots> =
      utf16 ''Source ['' @ toDecimal i @ utf16 '']:\<newline>Title: '' @
      title (results ! (i - 1)) @
      utf16 ''\<newline>URL: '' @ url (results ! (i - 1)) @ utf16 ''\<newline>'' @
      (case author (results ! (i - 1)) of
         None \<Rightarrow> []
       | Some a \<Rightarrow> if a = [] then [] else utf16 ''Author: '' @ a @ utf16 ''\<newline>'') @
      (case publishedDate (results ! (i - 1)) of
         None \<Rightarrow> []
       | Some d \<Rightarrow> if d = [] then [] else utf16 ''Date: '' @ d @ utf16 ''\<newline>'') @
      utf16 ''Content: '' @ text_str (results ! (i - 1)) @ utf16 ''\<newline>---''"
    unfolding formatSource_def suc
    by (simp add: truthy_def split: option.splits del: toDecimal.simps)
  finally show "mapIndexed formatSource 0 results ! (i - 1) =
      utf16 ''Source ['' @ toDecimal i @ utf16 '']:\<newline>Title: '' @
      title (results ! (i - 1)) @
      utf16 ''\<newline>URL: '' @ url (results ! (i - 1)) @ utf16 ''\<newline>'' @
      (case author (results ! (i - 1)) of
         None \<Rightarrow> []
       | Some a \<Rightarrow> if a = [] then [] else utf16 ''Author: '' @ a @ utf16 ''\<newline>'') @
      (case publishedDate (results ! (i - 1)) of
         None \<Rightarrow> []
       | Some d \<Rightarrow> if d = [] then [] else utf16 ''Date: '' @ d @ utf16 ''\<newline>'') @
      utf16 ''Content: '' @ text_str (results ! (i - 1)) @ utf16 ''\<newline>---''" .
qed

theorem format_citation_index_witness:
  "[\<lparr>title = utf16 ''T'', url = utf16 ''u'', text_str = utf16 ''x'',
     author = Some (utf16 ''A''), publishedDate = None\<rparr>,
    \<lparr>title = utf16 ''V'', url = utf16 ''w'', text_str = utf16 ''y'',
     author = Some [], publishedDate = Some (utf16 ''D'')\<rparr>] \<noteq> [] \<and>
   (\<exists>blocks.
      searchContext
        [\<lparr>title = utf16 ''T'', url = utf16 ''u'', text_str = utf16 ''x'',
          author = Some (utf16 ''A''), publishedDate = None\<rparr>,
         \<lparr>title = utf16 ''V'', url = utf16 ''w'', text_str = utf16 ''y'',
          author = Some [], publishedDate = Some (utf16 ''D'')\<rparr>] =
        CONTEXT_HEADER @ join blocks (utf16 ''\<newline>\<newline>'') @ CONTEXT_INSTRUCTIONS \<and>
      length blocks = 2)"
proof -
  have h: "[\<lparr>title = utf16 ''T'', url = utf16 ''u'', text_str = utf16 ''x'',
              author = Some (utf16 ''A''), publishedDate = None\<rparr>,
            \<lparr>title = utf16 ''V'', url = utf16 ''w'', text_str = utf16 ''y'',
              author = Some [], publishedDate = Some (utf16 ''D'')\<rparr>] \<noteq> []"
    by simp
  from format_citation_index [OF h] obtain blocks where
    "searchContext
        [\<lparr>title = utf16 ''T'', url = utf16 ''u'', text_str = utf16 ''x'',
          author = Some (utf16 ''A''), publishedDate = None\<rparr>,
         \<lparr>title = utf16 ''V'', url = utf16 ''w'', text_str = utf16 ''y'',
          author = Some [], publishedDate = Some (utf16 ''D'')\<rparr>] =
        CONTEXT_HEADER @ join blocks (utf16 ''\<newline>\<newline>'') @ CONTEXT_INSTRUCTIONS"
    and "length blocks = length
        [\<lparr>title = utf16 ''T'', url = utf16 ''u'', text_str = utf16 ''x'',
          author = Some (utf16 ''A''), publishedDate = None\<rparr>,
         \<lparr>title = utf16 ''V'', url = utf16 ''w'', text_str = utf16 ''y'',
          author = Some [], publishedDate = Some (utf16 ''D'')\<rparr>]"
    by blast
  then show ?thesis using h by auto
qed

text \<open>
  The same list written out: the first result has an author and no date, the second an
  empty author and a date.
\<close>

lemma format_example:
  "searchContext
     [\<lparr>title = utf16 ''T'', url = utf16 ''u'', text_str = utf16 ''x'',
       author = Some (utf16 ''A''), publishedDate = None\<rparr>,
      \<lparr>title = utf16 ''V'', url = utf16 ''w'', text_str = utf16 ''y'',
       author = Some [], publishedDate = Some (utf16 ''D'')\<rparr>] =
   CONTEXT_HEADER @
   utf16 (''Source [1]:\<newline>Title: T\<newline>URL: u\<newline>Author: A\<newline>Content: x\<newline>---\<newline>\<newline>'' @
          ''Source [2]:\<newline>Title: V\<newline>URL: w\<newline>Date: D\<newline>Content: y\<newline>---'') @
   CONTEXT_INSTRUCTIONS"
  by (simp add: searchContext_def formatSource_def truthy_def utf16_def)


section \<open>The segmenter on concrete buffers\<close>

text \<open>A buffer growing chunk by chunk, and a buffer with two end markers.\<close>

lemma segment_two_end_markers_example:
  "parseMessageContent (utf16 ''<think> a </think> b </think> c '') =
     Some \<lparr>thinking = utf16 ''a'', finalResponse = utf16 ''b </think> c'',
           isComplete = True\<rparr>"
  by code_simp

lemma segment_stream_example:
  "parseMessageContent (utf16 ''<think>Let me check'') =
     Some \<lparr>thinking = utf16 ''Let me check'', finalResponse = [], isComplete = False\<rparr>"
  "parseMessageContent (utf16 ''<think>Let me check the data</think>'') =
     Some \<lparr>thinking = utf16 ''Let me check the data'', finalResponse = [],
           isComplete = True\<rparr>"
  "parseMessageContent (utf16 ''<think>Let me check the data</think>The answer is 42'') =
     Some \<lparr>thinking = utf16 ''Let me check the data'',
           finalResponse = utf16 ''The answer is 42'', isComplete = True\<rparr>"
  by code_simp+

end
